theory Spec2Isabelle
  imports Main
begin

section \<open>Coverage ranges (eventAggregator.ts)\<close>

text \<open>
  \<^verbatim>\<open>interface ProcessedRange { start: number; end: number; }\<close>
  Ids are integers handed out by the store's key generator; they are modelled as
  unbounded \<open>int\<close>. The field \<open>end\<close> is spelled \<open>endr\<close>.
\<close>

record ProcessedRange =
  start :: int
  endr :: int

text \<open>
  The sweep of \<open>updateProcessedRanges\<close>: \<open>mergedRanges\<close> is the accumulator the
  loop pushes to, \<open>currentRange\<close> the range being extended, the list the rest of
  \<open>allRanges\<close>. The code extends \<open>currentRange.end\<close> in place; the object it changes
  belongs to the old list, which is replaced by \<open>mergedRanges\<close>, so a fresh record
  gives the same result.
\<close>

fun mergeLoop :: "ProcessedRange list \<Rightarrow> ProcessedRange \<Rightarrow> ProcessedRange list \<Rightarrow> ProcessedRange list" where
  "mergeLoop mergedRanges currentRange [] = mergedRanges @ [currentRange]"
| "mergeLoop mergedRanges currentRange (nextRange # rest) =
     (if endr currentRange + 1 \<ge> start nextRange
      then mergeLoop mergedRanges
             (currentRange\<lparr>endr := max (endr currentRange) (endr nextRange)\<rparr>) rest
      else mergeLoop (mergedRanges @ [currentRange]) nextRange rest)"

text \<open>
  \<open>allRanges.sort((a, b) => a.start - b.start)\<close> is a stable sort on \<open>start\<close>, as
  \<open>sort_key\<close> is. \<open>allRanges\<close> always holds the new range, so the empty case
  cannot arise.
\<close>

definition updateProcessedRanges :: "ProcessedRange list \<Rightarrow> int \<Rightarrow> int \<Rightarrow> ProcessedRange list" where
  "updateProcessedRanges processedRanges s e =
     (let newRange = \<lparr>start = s, endr = e\<rparr>;
          allRanges = sort_key start (processedRanges @ [newRange])
      in case allRanges of
           [] \<Rightarrow> []
         | currentRange # rest \<Rightarrow> mergeLoop [] currentRange rest)"

text \<open>The integers a coverage list covers, and the invariant of the data model.\<close>

definition covered :: "ProcessedRange list \<Rightarrow> int set" where
  "covered rs = (\<Union>r \<in> set rs. {start r .. endr r})"

definition wellFormed :: "ProcessedRange list \<Rightarrow> bool" where
  "wellFormed rs \<longleftrightarrow>
     list_all (\<lambda>r. start r \<le> endr r) rs \<and> sorted_wrt (\<lambda>a b. endr a + 1 < start b) rs"

text \<open>
  The same sweep without the accumulator; \<open>mergeLoop\<close> is shown equal to it and the
  proofs go through this form.
\<close>

fun sweep :: "ProcessedRange \<Rightarrow> ProcessedRange list \<Rightarrow> ProcessedRange list" where
  "sweep c [] = [c]"
| "sweep c (n # rest) =
     (if endr c + 1 \<ge> start n
      then sweep (c\<lparr>endr := max (endr c) (endr n)\<rparr>) rest
      else c # sweep n rest)"

text \<open>
  A sequence of inserts: \<open>updateProcessedRanges\<close> called once per interval of the
  list, in order, as successive live and catch-up advances do.
\<close>

definition insertAll :: "ProcessedRange list \<Rightarrow> (int \<times> int) list \<Rightarrow> ProcessedRange list" where
  "insertAll rs ivs = foldl (\<lambda>acc (s, e). updateProcessedRanges acc s e) rs ivs"

section \<open>Events, errors and the event store (eventStore.ts)\<close>

text \<open>
  \<^verbatim>\<open>interface StoredEvent<V> { localId: number; globalId: string; value: V; }\<close>
  The field \<open>value\<close> is spelled \<open>val\<close>.
\<close>

record 'v StoredEvent =
  localId :: int
  globalId :: string
  val :: 'v

text \<open>
  The errors the code throws or rejects with: \<open>'Database not initialized'\<close>,
  \<open>'Unexpected value'\<close>, \<open>'Add error: ...'\<close>, \<open>'Transaction error: ...'\<close>,
  \<open>'Transaction aborted'\<close>, a failure of the consumer's fold, and the
  \<open>InvalidStateError\<close> that \<open>tx.abort()\<close> throws on a transaction that has finished.
\<close>

datatype error =
    DatabaseNotInitialized
  | UnexpectedValue
  | AddError
  | TransactionError
  | TransactionAborted
  | FoldError
  | InvalidStateError

text \<open>
  A subscriber of the store is the engine's \<open>handleNewEvent\<close> (registered by
  \<open>EventAggregator.initialize\<close>) or some other callback, named by a number.
\<close>

datatype storeListener = AggregatorHandler | OtherListener nat

text \<open>
  The store object together with the database it talks to. \<open>store_db\<close> says whether
  \<open>this.db\<close> holds a handle; \<open>store_listeners\<close> is the listener set in insertion
  order. The database is the \<open>Events\<close> object store as \<open>initializeDatabase\<close> creates
  it: \<open>records\<close> in ascending key order, the current number of the
  \<open>autoIncrement\<close> key generator, and whether the index on \<open>globalId\<close> was
  created with \<open>unique: true\<close>.
\<close>

record 'v EventStore =
  store_db :: bool
  store_listeners :: "storeListener list"
  records :: "'v StoredEvent list"
  currentNumber :: int
  uniqueGlobalId :: bool

text \<open>
  \<open>initializeDatabase\<close> on a database that does not exist yet: \<open>onupgradeneeded\<close>
  creates the object store and the unique index, \<open>onsuccess\<close> keeps the handle.
\<close>

definition initializeDatabase :: "storeListener list \<Rightarrow> 'v EventStore" where
  "initializeDatabase ls =
     \<lparr>store_db = True, store_listeners = ls, records = [], currentNumber = 1,
      uniqueGlobalId = True\<rparr>"

text \<open>
  Modelled from the spec: the transactional store, an external collaborator (IndexedDB)
  whose code is not part of the repository: "event records keyed by \<open>localId\<close> with a
  secondary unique index on \<open>globalId\<close>", mutated inside a transaction that "either
  fully commits or fully aborts". \<open>objectStore_add\<close> gives the callbacks an \<open>add\<close>
  request and its transaction deliver, in order, and the store afterwards. A request
  that violates a unique index fails with a \<open>ConstraintError\<close>; the error bubbles to
  the transaction, which aborts, and nothing is stored. A request that succeeds
  delivers \<open>success\<close> with the generated key while the transaction is still open; the
  transaction then either completes, which makes the record durable, or aborts, which
  discards it. \<open>commits\<close> says which of the two happens.
\<close>

datatype idbCallback =
    RequestSuccess int
  | RequestError
  | TransactionErrorEvent
  | TransactionAbortEvent
  | TransactionCompleteEvent

definition objectStore_add ::
  "'v EventStore \<Rightarrow> string \<Rightarrow> 'v \<Rightarrow> bool \<Rightarrow> idbCallback list \<times> 'v EventStore" where
  "objectStore_add st gid v commits =
     (if uniqueGlobalId st \<and> gid \<in> set (map globalId (records st))
      then ([RequestError, TransactionErrorEvent, TransactionAbortEvent], st)
      else if commits
      then ([RequestSuccess (currentNumber st), TransactionCompleteEvent],
            st\<lparr>records := records st @ [\<lparr>localId = currentNumber st, globalId = gid, val = v\<rparr>],
               currentNumber := currentNumber st + 1\<rparr>)
      else ([RequestSuccess (currentNumber st), TransactionAbortEvent], st))"

text \<open>
  The promise \<open>add\<close> returns, and the listener calls made so far. A settled promise
  ignores later \<open>resolve\<close> and \<open>reject\<close> calls.
\<close>

datatype promise = Pending | Fulfilled | Rejected error

record 'v addState =
  promise :: promise
  invoked :: "(storeListener \<times> 'v StoredEvent) list"

definition settle :: "promise \<Rightarrow> 'v addState \<Rightarrow> 'v addState" where
  "settle p a = (if promise a = Pending then a\<lparr>promise := p\<rparr> else a)"

text \<open>\<open>notifyListeners\<close> of the store, reached through \<open>broadcastAddEvent\<close>.\<close>

definition store_notifyListeners ::
  "storeListener list \<Rightarrow> 'v StoredEvent \<Rightarrow> 'v addState \<Rightarrow> 'v addState" where
  "store_notifyListeners ls msg a = a\<lparr>invoked := invoked a @ map (\<lambda>l. (l, msg)) ls\<rparr>"

text \<open>
  The handlers \<open>add\<close> registers: \<open>request.onsuccess\<close> broadcasts and resolves,
  \<open>request.onerror\<close>, \<open>trx.onerror\<close> and \<open>trx.onabort\<close> reject; no handler is
  registered for \<open>complete\<close>.
\<close>

fun add_handler ::
  "storeListener list \<Rightarrow> string \<Rightarrow> 'v \<Rightarrow> 'v addState \<Rightarrow> idbCallback \<Rightarrow> 'v addState" where
  "add_handler ls gid v a (RequestSuccess key) =
     settle Fulfilled
       (store_notifyListeners ls \<lparr>localId = key, globalId = gid, val = v\<rparr> a)"
| "add_handler ls gid v a RequestError = settle (Rejected AddError) a"
| "add_handler ls gid v a TransactionErrorEvent = settle (Rejected TransactionError) a"
| "add_handler ls gid v a TransactionAbortEvent = settle (Rejected TransactionAborted) a"
| "add_handler ls gid v a TransactionCompleteEvent = a"

text \<open>
  \<open>EventStore.add\<close>: \<open>gid\<close> is what \<open>uuidv7()\<close> returned. The result is the
  promise, the store afterwards and the listener calls made.
\<close>

definition EventStore_add ::
  "'v EventStore \<Rightarrow> string \<Rightarrow> 'v \<Rightarrow> bool \<Rightarrow>
     promise \<times> 'v EventStore \<times> (storeListener \<times> 'v StoredEvent) list" where
  "EventStore_add st gid v commits =
     (if \<not> store_db st then (Rejected DatabaseNotInitialized, st, [])
      else
        let (callbacks, st') = objectStore_add st gid v commits;
            a = foldl (add_handler (store_listeners st) gid v)
                  \<lparr>promise = Pending, invoked = []\<rparr> callbacks
        in (promise a, st', invoked a))"

text \<open>
  \<open>getEvents\<close>: the cursor walks the records of the key range in the given
  direction; after each push it continues when there is no limit (absent or \<open>0\<close>,
  both falsy, which is what \<open>belowLimit\<close> tests) or the limit is not reached,
  and resolves otherwise.
\<close>

definition belowLimit :: "int option \<Rightarrow> nat \<Rightarrow> bool" where
  "belowLimit limit n = (case limit of None \<Rightarrow> True | Some l \<Rightarrow> l = 0 \<or> int n < l)"

fun cursorLoop ::
  "int option \<Rightarrow> 'v StoredEvent list \<Rightarrow> 'v StoredEvent list \<Rightarrow> 'v StoredEvent list" where
  "cursorLoop limit results [] = results"
| "cursorLoop limit results (storedEvent # remaining) =
     (if belowLimit limit (length (results @ [storedEvent]))
      then cursorLoop limit (results @ [storedEvent]) remaining
      else results @ [storedEvent])"


definition getEventsBefore ::
  "'v EventStore \<Rightarrow> int \<Rightarrow> int option \<Rightarrow> error + 'v StoredEvent list" where
  "getEventsBefore st bound limit =
     (if \<not> store_db st then Inl DatabaseNotInitialized
      else Inr (cursorLoop limit []
                  (rev (sort_key localId (filter (\<lambda>e. localId e < bound) (records st))))))"


text \<open>
  \<open>cleanupOldData\<close>: when more than \<open>keepLatest\<close> records are stored, an ascending
  cursor deletes the oldest \<open>count - keepLatest\<close> of them.
\<close>

definition cleanupOldData :: "'v EventStore \<Rightarrow> int \<Rightarrow> error + 'v EventStore" where
  "cleanupOldData st keepLatest =
     (if \<not> store_db st then Inl DatabaseNotInitialized
      else
        let count = int (length (records st)) in
        if count \<le> keepLatest then Inr st
        else Inr (st\<lparr>records := drop (nat (count - keepLatest)) (records st)\<rparr>))"



section \<open>The aggregation engine (eventAggregator.ts)\<close>

definition MAX_SAFE_INTEGER :: int where
  "MAX_SAFE_INTEGER = 9007199254740991"

text \<open>
  \<open>findRangeToProcess\<close>, branch by branch; \<open>Inl\<close> is the thrown error, \<open>Inr None\<close>
  the \<open>null\<close> result.
\<close>

definition findRangeToProcess :: "ProcessedRange list \<Rightarrow> error + ProcessedRange option" where
  "findRangeToProcess processedRanges =
     (let sz = length processedRanges in
      if sz = 0 then Inr (Some \<lparr>start = 0, endr = MAX_SAFE_INTEGER\<rparr>)
      else
        let rangeEnd = start (processedRanges ! (sz - 1)) in
        if rangeEnd = 1 then Inr None
        else if rangeEnd = 0 then Inl UnexpectedValue
        else if 1 < sz then
          (let rangeStart = endr (processedRanges ! (sz - 2))
           in Inr (Some \<lparr>start = rangeStart, endr = rangeEnd\<rparr>))
        else Inr (Some \<lparr>start = 0, endr = rangeEnd\<rparr>))"

text \<open>
  \<open>isFullyCovered\<close>. On an empty list the code starts \<open>hasAnyRecord()\<close> and drops
  its result (the \<open>then\<close> callback's value goes nowhere), then returns \<open>false\<close>.
\<close>

definition isFullyCovered :: "ProcessedRange list \<Rightarrow> bool" where
  "isFullyCovered processedRanges =
     (if length processedRanges = 0 then False
      else length processedRanges = 1 \<and> start (processedRanges ! 0) = 0)"

text \<open>
  The engine. \<open>db\<close> says whether \<open>this.db\<close> holds a handle; \<open>listeners\<close> is the
  listener set in insertion order, each listener named by a number. What the engine
  does to the outside is kept in the same record: \<open>metadata\<close> is the committed
  \<open>ProcessedRanges\<close> record of the \<open>Metadata\<close> store, \<open>aggregates\<close> the committed
  content of the stores the fold writes, \<open>processEventCalls\<close> the ids \<open>processEvent\<close>
  was called with, \<open>notifications\<close> the listener calls made, and \<open>console\<close> the
  messages given to \<open>console.error\<close>.
\<close>

record ('a, 's) EventAggregator =
  db :: bool
  batchSize :: int
  processedRanges :: "ProcessedRange list"
  processingIntervalId :: "nat option"
  listeners :: "nat list"
  metadata :: "ProcessedRange list"
  aggregates :: 's
  processEventCalls :: "int list"
  notifications :: "(nat \<times> 'a) list"
  console :: "string list"

text \<open>
  Modelled from the spec: the state of the engine's transaction in the external store
  at the moment the \<open>catch\<close> block runs. It is still \<open>Active\<close> when a request of the
  transaction has just failed. It has finished when the failing code had awaited
  something other than a request of the transaction: with no request pending the
  store commits the transaction by itself (\<open>Committed\<close>, the writes made so far are
  durable), or the transaction was aborted meanwhile (\<open>Aborted\<close>).
\<close>

datatype txStatus = Active | Committed | Aborted

text \<open>
  The consumer's fold \<open>processEvent(trx, event)\<close>: it reads and writes the aggregate
  stores inside the transaction and returns the changed item or \<open>null\<close> with the
  stores as it leaves them; or it fails, with the error, the state of the transaction
  at that moment and the stores as the writes it made before failing leave them.
\<close>

type_synonym ('v, 'a, 's) processEvent =
  "'s \<Rightarrow> 'v StoredEvent \<Rightarrow> (error \<times> txStatus \<times> 's) + ('a option \<times> 's)"

text \<open>
  Modelled from the spec: the outcome of the engine's transaction in the external
  store. What the storage does with a read-write transaction once the folds are done:
  \<open>saveProcessedRanges\<close> fails, because its \<open>put\<close> request fails (the transaction
  is \<open>Active\<close>) or because the transaction has finished and \<open>tx.objectStore\<close>
  throws; or the \<open>put\<close> succeeds and the transaction aborts at commit (neither
  \<open>oncomplete\<close> nor \<open>onerror\<close> fires, the returned promise stays pending); or it
  succeeds and the transaction completes.
\<close>

datatype txOutcome = PutFails txStatus | CommitAborts | Commits

text \<open>The engine after a successful \<open>initialize\<close> on a fresh database.\<close>

definition initialState :: "int \<Rightarrow> 's \<Rightarrow> ('a, 's) EventAggregator" where
  "initialState n z =
     \<lparr>db = True, batchSize = n, processedRanges = [], processingIntervalId = None,
      listeners = [], metadata = [], aggregates = z, processEventCalls = [],
      notifications = [], console = []\<rparr>"

definition startProcessing :: "nat \<Rightarrow> ('a, 's) EventAggregator \<Rightarrow> ('a, 's) EventAggregator" where
  "startProcessing timer s =
     (if processingIntervalId s = None then s\<lparr>processingIntervalId := Some timer\<rparr> else s)"

definition stopProcessing :: "('a, 's) EventAggregator \<Rightarrow> ('a, 's) EventAggregator" where
  "stopProcessing s =
     (if processingIntervalId s \<noteq> None then s\<lparr>processingIntervalId := None\<rparr> else s)"

text \<open>
  \<open>notifyListeners\<close>: every listener once per change, changes in order. A listener
  that throws is caught and logged; listeners are modelled as not throwing.
\<close>

definition notifyListeners :: "'a list \<Rightarrow> ('a, 's) EventAggregator \<Rightarrow> ('a, 's) EventAggregator" where
  "notifyListeners changes s =
     s\<lparr>notifications := notifications s @
          concat (map (\<lambda>updated. map (\<lambda>listener. (listener, updated)) (listeners s)) changes)\<rparr>"

definition subscribe :: "nat \<Rightarrow> ('a, 's) EventAggregator \<Rightarrow> ('a, 's) EventAggregator" where
  "subscribe listener s =
     (if listener \<in> set (listeners s) then s else s\<lparr>listeners := listeners s @ [listener]\<rparr>)"

definition dispose :: "('a, 's) EventAggregator \<Rightarrow> ('a, 's) EventAggregator" where
  "dispose s = s\<lparr>listeners := [], db := False\<rparr>"

text \<open>
  The \<open>catch\<close> block of \<open>handleNewEvent\<close> and of \<open>processEvents\<close>:
  \<open>console.error(msg, err)\<close>, then \<open>tx.abort()\<close>. On an active transaction the
  abort discards the writes made in it. On a finished transaction \<open>abort\<close> throws
  \<open>InvalidStateError\<close> out of the \<open>catch\<close>; if the transaction had committed, the
  stores hold the writes made in it, given as \<open>view\<close>. The result is the error thrown,
  if any, and the engine afterwards.
\<close>

definition catchBlock ::
  "string \<Rightarrow> txStatus \<Rightarrow> 's \<Rightarrow> ('a, 's) EventAggregator \<Rightarrow>
     error option \<times> ('a, 's) EventAggregator" where
  "catchBlock msg status view s =
     (let s' = s\<lparr>console := console s @ [msg]\<rparr> in
      case status of
        Active \<Rightarrow> (None, s')
      | Committed \<Rightarrow> (Some InvalidStateError, s'\<lparr>aggregates := view\<rparr>)
      | Aborted \<Rightarrow> (Some InvalidStateError, s'))"

text \<open>
  \<open>handleNewEvent\<close>, the live path. A fold failure or a failed
  \<open>saveProcessedRanges\<close> lands in the \<open>catch\<close>; when the \<open>catch\<close> does not throw the
  function returns normally, otherwise its promise rejects.
\<close>

definition handleNewEvent ::
  "('v, 'a, 's) processEvent \<Rightarrow> txOutcome \<Rightarrow> 'v StoredEvent \<Rightarrow> ('a, 's) EventAggregator \<Rightarrow>
     promise \<times> ('a, 's) EventAggregator" where
  "handleNewEvent pe outcome ev s =
     (if \<not> db s then (Rejected DatabaseNotInitialized, s)
      else
        let s0 = s\<lparr>processEventCalls := processEventCalls s @ [localId ev]\<rparr> in
        (case pe (aggregates s) ev of
          Inl (err, status, view) \<Rightarrow>
            (case catchBlock ''Error processing new event:'' status view s0 of
               (None, s') \<Rightarrow> (Fulfilled, s')
             | (Some thrown, s') \<Rightarrow> (Rejected thrown, s'))
        | Inr (changedItem, aggregates') \<Rightarrow>
            let s1 = s0\<lparr>processedRanges :=
                          updateProcessedRanges (processedRanges s0) (localId ev) (localId ev)\<rparr>;
                s2 = (case changedItem of
                        Some item \<Rightarrow> notifyListeners [item] s1
                      | None \<Rightarrow> s1)
            in (case outcome of
                  PutFails status \<Rightarrow>
                    (case catchBlock ''Error processing new event:'' status aggregates' s1 of
                       (None, s') \<Rightarrow> (Fulfilled, s')
                     | (Some thrown, s') \<Rightarrow> (Rejected thrown, s'))
                | CommitAborts \<Rightarrow> (Pending, s2)
                | Commits \<Rightarrow>
                    (Fulfilled,
                     s2\<lparr>metadata := processedRanges s2, aggregates := aggregates'\<rparr>))))"

text \<open>
  The \<open>for\<close> loop of \<open>processEvents\<close>: the folds run in the order received, each on
  the transaction's view left by the one before; the loop stops at the first failure.
  It returns the failure if any (the error and the state of the transaction), the
  transaction's view, \<open>changedItems\<close> and the ids \<open>processEvent\<close> was called with.
\<close>

fun processLoop ::
  "('v, 'a, 's) processEvent \<Rightarrow> 's \<Rightarrow> 'a list \<Rightarrow> int list \<Rightarrow> 'v StoredEvent list \<Rightarrow>
     (error \<times> txStatus) option \<times> 's \<times> 'a list \<times> int list" where
  "processLoop pe view changedItems calls [] = (None, view, changedItems, calls)"
| "processLoop pe view changedItems calls (ev # rest) =
     (case pe view ev of
        Inl (err, status, view') \<Rightarrow>
          (Some (err, status), view', changedItems, calls @ [localId ev])
      | Inr (changedItem, view') \<Rightarrow>
          processLoop pe view'
            (case changedItem of Some item \<Rightarrow> changedItems @ [item] | None \<Rightarrow> changedItems)
            (calls @ [localId ev]) rest)"

text \<open>
  \<open>processEvents\<close> from the point where \<open>eventsBefore\<close> is known. When all folds and
  the \<open>put\<close> succeed, the \<open>try\<close> block returns the promise that waits for the
  transaction, so the \<open>notifyListeners(changedItems)\<close> after the \<open>try\<close>/\<open>catch\<close> is
  reached only through the \<open>catch\<close>, and only when the \<open>catch\<close> does not throw.
\<close>

definition processBatch ::
  "('v, 'a, 's) processEvent \<Rightarrow> txOutcome \<Rightarrow> 'v StoredEvent list \<Rightarrow> ('a, 's) EventAggregator \<Rightarrow>
     promise \<times> ('a, 's) EventAggregator" where
  "processBatch pe outcome eventsBefore s =
     (case eventsBefore of
        [] \<Rightarrow> (Fulfilled, s)
      | newest # _ \<Rightarrow>
          let maxId = localId newest;
              minId = localId (last eventsBefore);
              (failure, view, changedItems, calls) =
                 processLoop pe (aggregates s) [] [] eventsBefore;
              s0 = s\<lparr>processEventCalls := processEventCalls s @ calls\<rparr>
          in (case failure of
               Some (err, status) \<Rightarrow>
                 (case catchBlock ''Error processing events:'' status view s0 of
                    (None, s') \<Rightarrow> (Fulfilled, notifyListeners changedItems s')
                  | (Some thrown, s') \<Rightarrow> (Rejected thrown, s'))
             | None \<Rightarrow>
                 let s1 = s0\<lparr>processedRanges :=
                               (if int (length eventsBefore) < batchSize s0
                                then updateProcessedRanges (processedRanges s0) 1 maxId
                                else updateProcessedRanges (processedRanges s0) minId maxId)\<rparr>
                 in (case outcome of
                       PutFails status \<Rightarrow>
                         (case catchBlock ''Error processing events:'' status view s1 of
                            (None, s') \<Rightarrow> (Fulfilled, notifyListeners changedItems s')
                          | (Some thrown, s') \<Rightarrow> (Rejected thrown, s'))
                     | CommitAborts \<Rightarrow> (Pending, s1)
                     | Commits \<Rightarrow>
                         (Fulfilled,
                          s1\<lparr>metadata := processedRanges s1, aggregates := view\<rparr>))))"

text \<open>\<open>processEvents\<close>, one tick of the catch-up path, reading from the store \<open>st\<close>.\<close>

definition processEvents ::
  "('v, 'a, 's) processEvent \<Rightarrow> txOutcome \<Rightarrow> 'v EventStore \<Rightarrow> ('a, 's) EventAggregator \<Rightarrow>
     promise \<times> ('a, 's) EventAggregator" where
  "processEvents pe outcome st s =
     (if \<not> db s then (Rejected DatabaseNotInitialized, s)
      else if isFullyCovered (processedRanges s) then (Fulfilled, stopProcessing s)
      else
        (case findRangeToProcess (processedRanges s) of
          Inl err \<Rightarrow> (Rejected err, s)
        | Inr None \<Rightarrow> (Fulfilled, s)
        | Inr (Some rng) \<Rightarrow>
            (case getEventsBefore st (endr rng)
                    (Some (min (batchSize s) (endr rng - start rng - 1))) of
               Inl err \<Rightarrow> (Rejected err, s)
             | Inr eventsBefore \<Rightarrow> processBatch pe outcome eventsBefore s)))"

text \<open>
  \<open>append\<close> as the assembled system runs it: \<open>EventStore.add\<close>, and for each call it
  makes to the engine's handler, \<open>handleNewEvent\<close> on the engine.
\<close>

definition deliver ::
  "('v, 'a, 's) processEvent \<Rightarrow> txOutcome \<Rightarrow> ('a, 's) EventAggregator \<Rightarrow>
     storeListener \<times> 'v StoredEvent \<Rightarrow> ('a, 's) EventAggregator" where
  "deliver pe outcome s call =
     (case fst call of
        AggregatorHandler \<Rightarrow> snd (handleNewEvent pe outcome (snd call) s)
      | OtherListener _ \<Rightarrow> s)"

definition append ::
  "('v, 'a, 's) processEvent \<Rightarrow> txOutcome \<Rightarrow> bool \<Rightarrow> string \<Rightarrow> 'v \<Rightarrow>
     'v EventStore \<times> ('a, 's) EventAggregator \<Rightarrow>
     promise \<times> 'v EventStore \<times> ('a, 's) EventAggregator" where
  "append pe outcome commits gid v sys =
     (let (p, st', calls) = EventStore_add (fst sys) gid v commits
      in (p, st', foldl (deliver pe outcome) (snd sys) calls))"

text \<open>
  A run of the engine: live deliveries, catch-up ticks and the public calls
  \<open>subscribe\<close>, \<open>startProcessing\<close>, \<open>stopProcessing\<close> and \<open>dispose\<close>, in any
  order. A tick reads the store as it is at that moment; \<open>StartProcessing\<close> carries
  the timer id \<open>setInterval\<close> returns. The synchronous calls return normally, which
  \<open>Fulfilled\<close> stands for.
\<close>

datatype 'v step =
    Live "'v StoredEvent" txOutcome
  | Tick "'v EventStore" txOutcome
  | Subscribe nat
  | StartProcessing nat
  | StopProcessing
  | Dispose

fun call ::
  "('v, 'a, 's) processEvent \<Rightarrow> ('a, 's) EventAggregator \<Rightarrow> 'v step \<Rightarrow>
     promise \<times> ('a, 's) EventAggregator" where
  "call pe s (Live ev outcome) = handleNewEvent pe outcome ev s"
| "call pe s (Tick st outcome) = processEvents pe outcome st s"
| "call pe s (Subscribe listener) = (Fulfilled, subscribe listener s)"
| "call pe s (StartProcessing timer) = (Fulfilled, startProcessing timer s)"
| "call pe s StopProcessing = (Fulfilled, stopProcessing s)"
| "call pe s Dispose = (Fulfilled, dispose s)"

definition run :: "('v, 'a, 's) processEvent \<Rightarrow> ('a, 's) EventAggregator \<Rightarrow> 'v step list \<Rightarrow> ('a, 's) EventAggregator" where
  "run pe s steps = foldl (\<lambda>s x. snd (call pe s x)) s steps"

text \<open>The steps the engine can meet: every event id is a generated key, so at least 1.\<close>

fun validStep :: "'v step \<Rightarrow> bool" where
  "validStep (Live ev outcome) = (1 \<le> localId ev)"
| "validStep (Tick st outcome) = list_all (\<lambda>e. 1 \<le> localId e) (records st)"
| "validStep _ = True"

text \<open>
  The invariant of the reachable states: every interval of the in-memory list and of
  the persisted list starts at 1 or above.
\<close>

definition startsFrom1 :: "ProcessedRange list \<Rightarrow> bool" where
  "startsFrom1 rs = list_all (\<lambda>r. 1 \<le> start r) rs"

definition engineInv :: "('a, 's) EventAggregator \<Rightarrow> bool" where
  "engineInv s \<longleftrightarrow> startsFrom1 (processedRanges s) \<and> startsFrom1 (metadata s)"

text \<open>
  A fold for the concrete runs below, as the tests' mock aggregators are: it appends
  the event's id to the list it keeps as aggregate and reports the id as the changed
  item. \<open>recordingFoldFailingAt k\<close> fails on the event with id \<open>k\<close> before writing,
  the transaction being active. \<open>recordingFoldFailingLate k\<close> writes its record for the
  event with id \<open>k\<close>, awaits something outside the transaction and then fails, the
  transaction having committed meanwhile. \<open>eventWithId\<close> and \<open>storeWithIds\<close> build an
  event and an open store holding events with the given ids.
\<close>

definition recordingFold :: "(unit, int, int list) processEvent" where
  "recordingFold view e = Inr (Some (localId e), view @ [localId e])"

definition recordingFoldFailingAt :: "int \<Rightarrow> (unit, int, int list) processEvent" where
  "recordingFoldFailingAt k view e =
     (if localId e = k then Inl (FoldError, Active, view)
      else Inr (Some (localId e), view @ [localId e]))"


definition eventWithId :: "int \<Rightarrow> unit StoredEvent" where
  "eventWithId i = \<lparr>localId = i, globalId = ''g'', val = ()\<rparr>"

definition storeWithIds :: "int list \<Rightarrow> unit EventStore" where
  "storeWithIds ids =
     \<lparr>store_db = True, store_listeners = [], records = map eventWithId ids,
      currentNumber = 1 + fold max ids 0, uniqueGlobalId = True\<rparr>"

text \<open>Generated keys start at 1: the invariant of the store that \<open>validStep\<close> relies on.\<close>

definition keysFrom1 :: "'v EventStore \<Rightarrow> bool" where
  "keysFrom1 st \<longleftrightarrow> 1 \<le> currentNumber st \<and> list_all (\<lambda>e. 1 \<le> localId e) (records st)"

section \<open>Properties of the sweep\<close>

lemma mergeLoop_sweep: "mergeLoop acc c rest = acc @ sweep c rest"
  by (induction rest arbitrary: acc c) auto

lemma sweep_starts:
  "r \<in> set (sweep c rest) \<Longrightarrow> start r = start c \<or> start r \<in> start ` set rest"
  by (induction rest arbitrary: c) (auto split: if_splits)

lemma sweep_nonempty_ranges:
  "start c \<le> endr c \<Longrightarrow> \<forall>x \<in> set rest. start x \<le> endr x \<Longrightarrow>
   \<forall>r \<in> set (sweep c rest). start r \<le> endr r"
proof (induction rest arbitrary: c)
  case Nil
  then show ?case by simp
next
  case (Cons n rest)
  show ?case
  proof (cases "endr c + 1 \<ge> start n")
    case True
    let ?c = "c\<lparr>endr := max (endr c) (endr n)\<rparr>"
    have "\<forall>r \<in> set (sweep ?c rest). start r \<le> endr r"
      using Cons.prems by (intro Cons.IH) auto
    then show ?thesis using True by simp
  next
    case False
    have "\<forall>r \<in> set (sweep n rest). start r \<le> endr r"
      using Cons.prems by (intro Cons.IH) auto
    then show ?thesis using False Cons.prems by simp
  qed
qed

lemma sweep_covered:
  "start c \<le> endr c \<Longrightarrow> \<forall>x \<in> set rest. start x \<le> endr x \<and> start c \<le> start x \<Longrightarrow>
   sorted (map start rest) \<Longrightarrow>
   covered (sweep c rest) = {start c .. endr c} \<union> covered rest"
proof (induction rest arbitrary: c)
  case Nil
  then show ?case by (simp add: covered_def)
next
  case (Cons n rest)
  show ?case
  proof (cases "endr c + 1 \<ge> start n")
    case True
    let ?c = "c\<lparr>endr := max (endr c) (endr n)\<rparr>"
    have "covered (sweep ?c rest) = {start ?c .. endr ?c} \<union> covered rest"
      using Cons.prems by (intro Cons.IH) auto
    moreover have "{start c .. max (endr c) (endr n)} = {start c .. endr c} \<union> {start n .. endr n}"
      using True Cons.prems by auto
    ultimately show ?thesis using True by (simp add: covered_def Un_assoc)
  next
    case False
    have "covered (sweep n rest) = {start n .. endr n} \<union> covered rest"
      using Cons.prems by (intro Cons.IH) auto
    then show ?thesis using False by (simp add: covered_def)
  qed
qed

lemma sweep_separated:
  "\<forall>x \<in> set rest. start c \<le> start x \<Longrightarrow> sorted (map start rest) \<Longrightarrow>
   sorted_wrt (\<lambda>a b. endr a + 1 < start b) (sweep c rest)"
proof (induction rest arbitrary: c)
  case Nil
  then show ?case by simp
next
  case (Cons n rest)
  show ?case
  proof (cases "endr c + 1 \<ge> start n")
    case True
    let ?c = "c\<lparr>endr := max (endr c) (endr n)\<rparr>"
    have "sorted_wrt (\<lambda>a b. endr a + 1 < start b) (sweep ?c rest)"
      using Cons.prems by (intro Cons.IH) auto
    then show ?thesis using True by simp
  next
    case False
    have "sorted_wrt (\<lambda>a b. endr a + 1 < start b) (sweep n rest)"
      using Cons.prems by (intro Cons.IH) auto
    moreover have "\<forall>y \<in> set (sweep n rest). endr c + 1 < start y"
    proof
      fix y assume "y \<in> set (sweep n rest)"
      then have "start y = start n \<or> start y \<in> start ` set rest"
        by (rule sweep_starts)
      moreover have "\<forall>x \<in> set rest. start n \<le> start x"
        using Cons.prems(2) by auto
      ultimately have "start n \<le> start y" by auto
      then show "endr c + 1 < start y" using False by simp
    qed
    ultimately show ?thesis using False by simp
  qed
qed

lemma allRanges_Cons:
  assumes "sort_key start xs = c # rest"
  shows "set xs = insert c (set rest)" "sorted (map start rest)" "\<forall>x \<in> set rest. start c \<le> start x"
proof -
  have "set (sort_key start xs) = set xs" by simp
  then show "set xs = insert c (set rest)" using assms by simp
  have "sorted (map start (sort_key start xs))" by (rule sorted_sort_key)
  then show "sorted (map start rest)" "\<forall>x \<in> set rest. start c \<le> start x"
    using assms by auto
qed

lemma updateProcessedRanges_sweep:
  "\<exists>c rest. sort_key start (rs @ [\<lparr>start = s, endr = e\<rparr>]) = c # rest \<and>
     updateProcessedRanges rs s e = sweep c rest"
proof (cases "sort_key start (rs @ [\<lparr>start = s, endr = e\<rparr>])")
  case Nil
  then have "length (sort_key start (rs @ [\<lparr>start = s, endr = e\<rparr>])) = 0" by simp
  then show ?thesis by simp
next
  case (Cons c rest)
  then show ?thesis by (simp add: updateProcessedRanges_def mergeLoop_sweep)
qed

lemma updateProcessedRanges_wellFormed:
  assumes "wellFormed rs" "s \<le> e"
  shows "wellFormed (updateProcessedRanges rs s e)"
proof -
  obtain c rest where sk: "sort_key start (rs @ [\<lparr>start = s, endr = e\<rparr>]) = c # rest"
    and up: "updateProcessedRanges rs s e = sweep c rest"
    using updateProcessedRanges_sweep by blast
  note facts = allRanges_Cons [OF sk]
  have "\<forall>x \<in> set (rs @ [\<lparr>start = s, endr = e\<rparr>]). start x \<le> endr x"
    using assms by (auto simp: wellFormed_def list_all_iff)
  then have ne: "\<forall>x \<in> insert c (set rest). start x \<le> endr x"
    unfolding facts(1) .
  have "\<forall>r \<in> set (sweep c rest). start r \<le> endr r"
    using ne by (intro sweep_nonempty_ranges) auto
  moreover have "sorted_wrt (\<lambda>a b. endr a + 1 < start b) (sweep c rest)"
    using facts by (intro sweep_separated) auto
  ultimately show ?thesis by (simp add: up wellFormed_def list_all_iff)
qed

lemma updateProcessedRanges_covered:
  assumes "wellFormed rs" "s \<le> e"
  shows "covered (updateProcessedRanges rs s e) = covered rs \<union> {s .. e}"
proof -
  obtain c rest where sk: "sort_key start (rs @ [\<lparr>start = s, endr = e\<rparr>]) = c # rest"
    and up: "updateProcessedRanges rs s e = sweep c rest"
    using updateProcessedRanges_sweep by blast
  note facts = allRanges_Cons [OF sk]
  have "\<forall>x \<in> set (rs @ [\<lparr>start = s, endr = e\<rparr>]). start x \<le> endr x"
    using assms by (auto simp: wellFormed_def list_all_iff)
  then have ne: "\<forall>x \<in> insert c (set rest). start x \<le> endr x"
    unfolding facts(1) .
  have "covered (sweep c rest) = {start c .. endr c} \<union> covered rest"
    using ne facts by (intro sweep_covered) auto
  also have "\<dots> = (\<Union>r \<in> insert c (set rest). {start r .. endr r})"
    by (simp add: covered_def)
  also have "\<dots> = (\<Union>r \<in> set (rs @ [\<lparr>start = s, endr = e\<rparr>]). {start r .. endr r})"
    using facts(1) by simp
  also have "\<dots> = covered rs \<union> {s .. e}"
    by (simp add: covered_def Un_commute)
  finally show ?thesis by (simp add: up)
qed

lemma wellFormed_sorted_start:
  assumes "wellFormed rs"
  shows "sorted_wrt (\<lambda>a b. start a < start b) rs"
proof -
  have "sorted_wrt (\<lambda>a b. start a \<le> endr a \<and> endr a + 1 < start b) rs"
    using assms by (induction rs) (auto simp: wellFormed_def)
  then show ?thesis
    by (rule sorted_wrt_mono_rel [rotated]) auto
qed

subsection \<open>Well-formed lists are canonical\<close>

lemma wellFormed_Cons:
  "wellFormed (r # rs) \<longleftrightarrow> start r \<le> endr r \<and> (\<forall>q \<in> set rs. endr r + 1 < start q) \<and> wellFormed rs"
  by (auto simp: wellFormed_def)

lemma covered_Cons: "covered (r # rs) = {start r .. endr r} \<union> covered rs"
  by (simp add: covered_def)

lemma covered_Nil: "covered [] = {}"
  by (simp add: covered_def)

lemma wellFormed_above:
  assumes "wellFormed (r # rs)" "x \<in> covered rs"
  shows "endr r + 1 < x"
proof -
  from assms(2) obtain q where q: "q \<in> set rs" "start q \<le> x" "x \<le> endr q"
    by (auto simp: covered_def)
  with assms(1) have "endr r + 1 < start q" by (simp add: wellFormed_Cons)
  with q show ?thesis by simp
qed

lemma wellFormed_head_le:
  assumes "wellFormed (r # rs)" "x \<in> covered (r # rs)"
  shows "start r \<le> x"
proof -
  from assms(2) have "x \<in> {start r .. endr r} \<or> x \<in> covered rs" by (simp add: covered_Cons)
  then show ?thesis
  proof
    assume "x \<in> {start r .. endr r}" then show ?thesis by simp
  next
    assume "x \<in> covered rs"
    then have "endr r + 1 < x" using assms(1) by (intro wellFormed_above)
    moreover have "start r \<le> endr r" using assms(1) by (simp add: wellFormed_Cons)
    ultimately show ?thesis by simp
  qed
qed

lemma wellFormed_head_end:
  assumes "wellFormed (r # rs)" "wellFormed (q # qs)" "covered (r # rs) = covered (q # qs)"
    "start r = start q"
  shows "endr r \<le> endr q"
proof (rule ccontr)
  assume "\<not> endr r \<le> endr q"
  then have lt: "endr q < endr r" by simp
  have "start q \<le> endr q" using assms(2) by (simp add: wellFormed_Cons)
  then have "endr q + 1 \<in> {start r .. endr r}" using lt assms(4) by simp
  then have "endr q + 1 \<in> covered (r # rs)" by (simp add: covered_Cons)
  then have "endr q + 1 \<in> covered (q # qs)" using assms(3) by simp
  then have "endr q + 1 \<in> covered qs" by (simp add: covered_Cons)
  then have "endr q + 1 < endr q + 1" using assms(2) by (intro wellFormed_above)
  then show False by simp
qed

lemma wellFormed_unique:
  "wellFormed rs \<Longrightarrow> wellFormed qs \<Longrightarrow> covered rs = covered qs \<Longrightarrow> rs = qs"
proof (induction rs arbitrary: qs)
  case Nil
  show ?case
  proof (cases qs)
    case Nil then show ?thesis by simp
  next
    case (Cons q qs')
    then have "start q \<in> covered qs" using Nil.prems(2) by (simp add: covered_Cons wellFormed_Cons)
    then show ?thesis using Nil.prems(3) by (simp add: covered_Nil)
  qed
next
  case (Cons r rs)
  show ?case
  proof (cases qs)
    case Nil
    have "start r \<in> covered (r # rs)" using Cons.prems(1) by (simp add: covered_Cons wellFormed_Cons)
    then show ?thesis using Cons.prems(3) Nil by (simp add: covered_Nil)
  next
    case (Cons q qs')
    note wr = Cons.prems(1) and wq = Cons.prems(2) [unfolded Cons] and ceq = Cons.prems(3) [unfolded Cons]
    have rr: "start r \<le> endr r" using wr by (simp add: wellFormed_Cons)
    have qq: "start q \<le> endr q" using wq by (simp add: wellFormed_Cons)
    have "start r \<in> covered (q # qs')" using rr ceq [symmetric] by (simp add: covered_Cons)
    then have a: "start q \<le> start r" using wq by (intro wellFormed_head_le)
    have "start q \<in> covered (r # rs)" using qq ceq by (simp add: covered_Cons)
    then have b: "start r \<le> start q" using wr by (intro wellFormed_head_le)
    have st: "start r = start q" using a b by simp
    have "endr r \<le> endr q" using wr wq ceq st by (rule wellFormed_head_end)
    moreover have "endr q \<le> endr r" using wq wr ceq [symmetric] st [symmetric] by (rule wellFormed_head_end)
    ultimately have en: "endr r = endr q" by simp
    have rq: "r = q" using st en by simp
    have d1: "covered rs \<inter> {start r .. endr r} = {}"
      using wellFormed_above [OF wr] by fastforce
    have d2: "covered qs' \<inter> {start r .. endr r} = {}"
      using wellFormed_above [OF wq] rq by fastforce
    have "covered rs = covered (r # rs) - {start r .. endr r}"
      using d1 by (auto simp: covered_Cons)
    also have "\<dots> = covered (q # qs') - {start r .. endr r}" using ceq by simp
    also have "\<dots> = covered qs'" using d2 rq by (auto simp: covered_Cons)
    finally have "covered rs = covered qs'" .
    moreover have "wellFormed rs" using wr by (simp add: wellFormed_Cons)
    moreover have "wellFormed qs'" using wq by (simp add: wellFormed_Cons)
    ultimately have "rs = qs'" by (intro Cons.IH)
    then show ?thesis using rq Cons by simp
  qed
qed

lemma insertAll_Nil: "insertAll rs [] = rs"
  by (simp add: insertAll_def)

lemma insertAll_Cons: "insertAll rs ((s, e) # ivs) = insertAll (updateProcessedRanges rs s e) ivs"
  by (simp add: insertAll_def)

lemma insertAll_wellFormed:
  "wellFormed rs \<Longrightarrow> \<forall>(s, e) \<in> set ivs. s \<le> e \<Longrightarrow> wellFormed (insertAll rs ivs)"
proof (induction ivs arbitrary: rs)
  case Nil
  then show ?case by (simp add: insertAll_Nil)
next
  case (Cons iv ivs)
  obtain s e where iv: "iv = (s, e)" by (cases iv)
  have "wellFormed (updateProcessedRanges rs s e)"
    using Cons.prems iv by (intro updateProcessedRanges_wellFormed) auto
  then have "wellFormed (insertAll (updateProcessedRanges rs s e) ivs)"
    using Cons.prems by (intro Cons.IH) auto
  then show ?case by (simp add: iv insertAll_Cons)
qed

lemma insertAll_covered:
  "wellFormed rs \<Longrightarrow> \<forall>(s, e) \<in> set ivs. s \<le> e \<Longrightarrow>
   covered (insertAll rs ivs) = covered rs \<union> (\<Union>(s, e) \<in> set ivs. {s .. e})"
proof (induction ivs arbitrary: rs)
  case Nil
  then show ?case by (simp add: insertAll_Nil)
next
  case (Cons iv ivs)
  obtain s e where iv: "iv = (s, e)" by (cases iv)
  have se: "s \<le> e" using Cons.prems(2) iv by simp
  have "wellFormed (updateProcessedRanges rs s e)"
    using Cons.prems(1) se by (rule updateProcessedRanges_wellFormed)
  then have "covered (insertAll (updateProcessedRanges rs s e) ivs) =
      covered (updateProcessedRanges rs s e) \<union> (\<Union>(s, e) \<in> set ivs. {s .. e})"
    using Cons.prems by (intro Cons.IH) auto
  also have "covered (updateProcessedRanges rs s e) = covered rs \<union> {s .. e}"
    using Cons.prems(1) se by (rule updateProcessedRanges_covered)
  finally show ?case by (simp add: iv insertAll_Cons Un_assoc)
qed

section \<open>Properties of the engine\<close>

lemma updateProcessedRanges_starts:
  assumes "r \<in> set (updateProcessedRanges rs s e)"
  shows "start r = s \<or> start r \<in> start ` set rs"
proof -
  obtain c rest where sk: "sort_key start (rs @ [\<lparr>start = s, endr = e\<rparr>]) = c # rest"
    and up: "updateProcessedRanges rs s e = sweep c rest"
    using updateProcessedRanges_sweep by blast
  have "start r = start c \<or> start r \<in> start ` set rest"
    using assms unfolding up by (rule sweep_starts)
  then have "start r \<in> start ` insert c (set rest)" by auto
  then have "start r \<in> start ` set (rs @ [\<lparr>start = s, endr = e\<rparr>])"
    unfolding allRanges_Cons(1) [OF sk] .
  then show ?thesis by auto
qed

lemma updateProcessedRanges_startsFrom1:
  "startsFrom1 rs \<Longrightarrow> 1 \<le> s \<Longrightarrow> startsFrom1 (updateProcessedRanges rs s e)"
  unfolding startsFrom1_def list_all_iff
  using updateProcessedRanges_starts by fastforce

lemma cursorLoop_subset: "set (cursorLoop limit acc xs) \<subseteq> set acc \<union> set xs"
proof (induction xs arbitrary: acc)
  case Nil
  then show ?case by simp
next
  case (Cons x xs)
  have "set (cursorLoop limit (acc @ [x]) xs) \<subseteq> set (acc @ [x]) \<union> set xs"
    by (rule Cons.IH)
  then show ?case by auto
qed

lemma getEventsBefore_subset:
  "getEventsBefore st bound limit = Inr evs \<Longrightarrow> set evs \<subseteq> set (records st)"
  using cursorLoop_subset [of limit "[]"]
  by (fastforce simp: getEventsBefore_def split: if_splits)

lemma notifyListeners_fields [simp]:
  "processedRanges (notifyListeners cs s) = processedRanges s"
  "metadata (notifyListeners cs s) = metadata s"
  "aggregates (notifyListeners cs s) = aggregates s"
  "db (notifyListeners cs s) = db s"
  "listeners (notifyListeners cs s) = listeners s"
  "processingIntervalId (notifyListeners cs s) = processingIntervalId s"
  "console (notifyListeners cs s) = console s"
  "processEventCalls (notifyListeners cs s) = processEventCalls s"
  "batchSize (notifyListeners cs s) = batchSize s"
  by (simp_all add: notifyListeners_def)

lemma catchBlock_result:
  assumes "catchBlock msg status view s = (thrown, s')"
  shows "processedRanges s' = processedRanges s \<and> metadata s' = metadata s \<and>
         notifications s' = notifications s \<and> processingIntervalId s' = processingIntervalId s \<and>
         db s' = db s \<and> listeners s' = listeners s \<and>
         processEventCalls s' = processEventCalls s \<and> console s' = console s @ [msg]"
  using assms by (cases status) (auto simp: catchBlock_def)


lemma handleNewEvent_inv:
  assumes "engineInv s" "1 \<le> localId ev"
  shows "engineInv (snd (handleNewEvent pe outcome ev s))"
proof -
  have u: "startsFrom1 (updateProcessedRanges (processedRanges s) (localId ev) (localId ev))"
    using assms by (intro updateProcessedRanges_startsFrom1) (auto simp: engineInv_def)
  show ?thesis
    using assms(1) u
    by (auto simp: handleNewEvent_def engineInv_def Let_def
          split: sum.splits option.splits prod.splits txOutcome.splits
          dest!: catchBlock_result)
qed

lemma processBatch_failure:
  assumes "eventsBefore \<noteq> []"
    and "processLoop pe (aggregates s) [] [] eventsBefore =
           (Some (err, status), view, changedItems, calls)"
  shows "processBatch pe outcome eventsBefore s =
           (case catchBlock ''Error processing events:'' status view
                   (s\<lparr>processEventCalls := processEventCalls s @ calls\<rparr>) of
              (None, s') \<Rightarrow> (Fulfilled, notifyListeners changedItems s')
            | (Some thrown, s') \<Rightarrow> (Rejected thrown, s'))"
  using assms
  by (cases eventsBefore) (simp_all add: processBatch_def del: processLoop.simps last.simps)

lemma processBatch_success:
  assumes "eventsBefore \<noteq> []"
    and "processLoop pe (aggregates s) [] [] eventsBefore = (None, view, changedItems, calls)"
  shows "processBatch pe outcome eventsBefore s =
           (let s1 = s\<lparr>processEventCalls := processEventCalls s @ calls,
                        processedRanges :=
                          (if int (length eventsBefore) < batchSize s
                           then updateProcessedRanges (processedRanges s) 1
                                  (localId (hd eventsBefore))
                           else updateProcessedRanges (processedRanges s)
                                  (localId (last eventsBefore)) (localId (hd eventsBefore)))\<rparr>
            in case outcome of
                 PutFails status \<Rightarrow>
                   (case catchBlock ''Error processing events:'' status view s1 of
                      (None, s') \<Rightarrow> (Fulfilled, notifyListeners changedItems s')
                    | (Some thrown, s') \<Rightarrow> (Rejected thrown, s'))
               | CommitAborts \<Rightarrow> (Pending, s1)
               | Commits \<Rightarrow>
                   (Fulfilled, s1\<lparr>metadata := processedRanges s1, aggregates := view\<rparr>))"
  using assms
  by (cases eventsBefore; cases outcome)
     (simp_all add: processBatch_def Let_def del: processLoop.simps last.simps)

lemma processBatch_inv:
  assumes "engineInv s" "\<forall>e \<in> set eventsBefore. 1 \<le> localId e"
  shows "engineInv (snd (processBatch pe outcome eventsBefore s))"
proof (cases "eventsBefore = []")
  case True
  then show ?thesis using assms by (simp add: processBatch_def)
next
  case False
  obtain failure view changedItems calls where
    pl: "processLoop pe (aggregates s) [] [] eventsBefore = (failure, view, changedItems, calls)"
    by (cases "processLoop pe (aggregates s) [] [] eventsBefore") auto
  show ?thesis
  proof (cases failure)
    case (Some f)
    obtain err status where f: "f = (err, status)" by (cases f)
    show ?thesis
      using assms(1)
      by (auto simp: processBatch_failure [OF False pl [unfolded Some f]] engineInv_def
            split: prod.splits option.splits dest!: catchBlock_result)
  next
    case None
    have "last eventsBefore \<in> set eventsBefore" using False by (rule last_in_set)
    then have m: "1 \<le> localId (last eventsBefore)" using assms(2) by blast
    have u1: "startsFrom1 (updateProcessedRanges (processedRanges s) 1 (localId (hd eventsBefore)))"
      using assms(1) by (intro updateProcessedRanges_startsFrom1) (auto simp: engineInv_def)
    have u2: "startsFrom1 (updateProcessedRanges (processedRanges s)
                 (localId (last eventsBefore)) (localId (hd eventsBefore)))"
      using assms(1) m by (intro updateProcessedRanges_startsFrom1) (auto simp: engineInv_def)
    show ?thesis
      using assms(1) u1 u2
      by (auto simp: processBatch_success [OF False pl [unfolded None]] engineInv_def Let_def
            split: prod.splits option.splits txOutcome.splits dest!: catchBlock_result)
  qed
qed

lemma stopProcessing_fields [simp]:
  "processedRanges (stopProcessing s) = processedRanges s"
  "metadata (stopProcessing s) = metadata s"
  "notifications (stopProcessing s) = notifications s"
  "db (stopProcessing s) = db s"
  by (simp_all add: stopProcessing_def)

lemma startProcessing_fields [simp]:
  "processedRanges (startProcessing t s) = processedRanges s"
  "metadata (startProcessing t s) = metadata s"
  "notifications (startProcessing t s) = notifications s"
  "db (startProcessing t s) = db s"
  by (simp_all add: startProcessing_def)

lemma subscribe_fields [simp]:
  "processedRanges (subscribe l s) = processedRanges s"
  "metadata (subscribe l s) = metadata s"
  "notifications (subscribe l s) = notifications s"
  "db (subscribe l s) = db s"
  by (simp_all add: subscribe_def)

lemma dispose_fields [simp]:
  "processedRanges (dispose s) = processedRanges s"
  "metadata (dispose s) = metadata s"
  "notifications (dispose s) = notifications s"
  "db (dispose s) = False"
  "listeners (dispose s) = []"
  by (simp_all add: dispose_def)

lemma processEvents_inv:
  assumes "engineInv s" "list_all (\<lambda>e. 1 \<le> localId e) (records st)"
  shows "engineInv (snd (processEvents pe outcome st s))"
proof -
  have "engineInv (snd (processBatch pe outcome evs s))"
    if "getEventsBefore st bound limit = Inr evs" for bound limit evs
  proof -
    have "set evs \<subseteq> set (records st)" using that by (rule getEventsBefore_subset)
    then have "\<forall>e \<in> set evs. 1 \<le> localId e" using assms(2) by (auto simp: list_all_iff)
    with assms(1) show ?thesis by (rule processBatch_inv)
  qed
  then show ?thesis
    using assms(1)
    by (auto simp: processEvents_def engineInv_def split: sum.splits option.splits)
qed

lemma run_inv:
  "engineInv s \<Longrightarrow> list_all validStep steps \<Longrightarrow> engineInv (run pe s steps)"
  unfolding run_def
proof (induction steps arbitrary: s)
  case Nil
  then show ?case by simp
next
  case (Cons x xs)
  have "engineInv (snd (call pe s x))"
  proof (cases x)
    case (Live ev outcome)
    then show ?thesis using Cons.prems by (simp add: handleNewEvent_inv)
  next
    case (Tick st outcome)
    then show ?thesis using Cons.prems by (simp add: processEvents_inv)
  qed (use Cons.prems in \<open>simp_all add: engineInv_def\<close>)
  then show ?case using Cons by simp
qed

lemma startsFrom1_not_fullyCovered: "startsFrom1 rs \<Longrightarrow> \<not> isFullyCovered rs"
  by (cases rs) (auto simp: startsFrom1_def isFullyCovered_def)

lemma startsFrom1_no_unexpected: "startsFrom1 rs \<Longrightarrow> findRangeToProcess rs \<noteq> Inl UnexpectedValue"
proof (cases "rs = []")
  case True then show ?thesis by (simp add: findRangeToProcess_def)
next
  case False
  assume a: "startsFrom1 rs"
  have "rs ! (length rs - 1) \<in> set rs" using False by simp
  then have "1 \<le> start (rs ! (length rs - 1))" using a by (simp add: startsFrom1_def list_all_iff)
  then show ?thesis using False by (auto simp: findRangeToProcess_def Let_def)
qed

lemma processBatch_timer:
  "processingIntervalId (snd (processBatch pe outcome eventsBefore s)) = processingIntervalId s"
proof (cases "eventsBefore = []")
  case True
  then show ?thesis by (simp add: processBatch_def)
next
  case False
  obtain failure view changedItems calls where
    pl: "processLoop pe (aggregates s) [] [] eventsBefore = (failure, view, changedItems, calls)"
    by (cases "processLoop pe (aggregates s) [] [] eventsBefore") auto
  show ?thesis
  proof (cases failure)
    case (Some f)
    obtain err status where f: "f = (err, status)" by (cases f)
    show ?thesis
      by (auto simp: processBatch_failure [OF False pl [unfolded Some f]]
            split: prod.splits option.splits dest!: catchBlock_result)
  next
    case None
    show ?thesis
      by (auto simp: processBatch_success [OF False pl [unfolded None]] Let_def
            split: prod.splits option.splits txOutcome.splits dest!: catchBlock_result)
  qed
qed

lemma processEvents_timer:
  "\<not> isFullyCovered (processedRanges s) \<Longrightarrow>
   processingIntervalId (snd (processEvents pe outcome st s)) = processingIntervalId s"
  by (simp add: processEvents_def processBatch_timer split: sum.splits option.splits)

subsection \<open>The range to process\<close>

lemma findRangeToProcess_Nil:
  "findRangeToProcess [] = Inr (Some \<lparr>start = 0, endr = MAX_SAFE_INTEGER\<rparr>)"
  by (simp add: findRangeToProcess_def)

lemma findRangeToProcess_single:
  "findRangeToProcess [b] =
     (if start b = 1 then Inr None
      else if start b = 0 then Inl UnexpectedValue
      else Inr (Some \<lparr>start = 0, endr = start b\<rparr>))"
  by (simp add: findRangeToProcess_def)

lemma findRangeToProcess_two:
  "findRangeToProcess (ys @ [a, b]) =
     (if start b = 1 then Inr None
      else if start b = 0 then Inl UnexpectedValue
      else Inr (Some \<lparr>start = endr a, endr = start b\<rparr>))"
  by (simp add: findRangeToProcess_def nth_append)

lemma two_or_more: "2 \<le> length rs \<Longrightarrow> \<exists>ys a b. rs = ys @ [a, b]"
proof -
  assume l: "2 \<le> length rs"
  then have "rs \<noteq> []" by auto
  then obtain zs b where r: "rs = zs @ [b]" by (metis rev_exhaust)
  with l have "zs \<noteq> []" by auto
  then obtain ys a where "zs = ys @ [a]" by (metis rev_exhaust)
  with r show ?thesis by simp
qed

lemma covered_append: "covered (xs @ ys) = covered xs \<union> covered ys"
  by (simp add: covered_def)

lemma gap_below_last_single:
  assumes "wellFormed [b]" "findRangeToProcess [b] = Inr (Some g)"
  shows "endr g = start b"
    and "start g < i \<Longrightarrow> i < endr g \<Longrightarrow> i \<notin> covered [b]"
    and "x \<in> covered [b] \<Longrightarrow> start b \<le> x \<and> x \<le> endr b"
  using assms by (auto simp: findRangeToProcess_single covered_def split: if_splits)

lemma gap_below_last_two:
  assumes "wellFormed (ys @ [a, b])" "findRangeToProcess (ys @ [a, b]) = Inr (Some g)"
  shows "endr g = start b"
    and "start g < i \<Longrightarrow> i < endr g \<Longrightarrow> i \<notin> covered (ys @ [a, b])"
    and "x \<in> covered (ys @ [a, b]) \<Longrightarrow> start g < x \<Longrightarrow> start b \<le> x \<and> x \<le> endr b"
proof -
  have g: "g = \<lparr>start = endr a, endr = start b\<rparr>"
    using assms(2) by (simp add: findRangeToProcess_two split: if_splits)
  have w: "\<forall>y \<in> set ys. start y \<le> endr y \<and> endr y + 1 < start a" "start a \<le> endr a"
    "endr a + 1 < start b" "start b \<le> endr b"
    using assms(1) by (auto simp: wellFormed_def sorted_wrt_append list_all_iff)
  have below: "z \<le> endr a" if "z \<in> covered (ys @ [a])" for z
    using that w by (fastforce simp: covered_def)
  have cov: "covered (ys @ [a, b]) = covered (ys @ [a]) \<union> {start b .. endr b}"
    by (auto simp: covered_def)
  show "endr g = start b" by (simp add: g)
  show "i \<notin> covered (ys @ [a, b])" if "start g < i" "i < endr g"
    using that below [of i] by (auto simp: g cov)
  show "start b \<le> x \<and> x \<le> endr b" if "x \<in> covered (ys @ [a, b])" "start g < x"
    using that below [of x] by (auto simp: g cov)
qed

section \<open>Properties of the store and of disposal\<close>

lemma EventStore_add_request_success:
  assumes "store_db st" and "\<not> (uniqueGlobalId st \<and> gid \<in> set (map globalId (records st)))"
  shows "EventStore_add st gid v commits =
           (Fulfilled,
            (if commits
             then st\<lparr>records := records st @ [\<lparr>localId = currentNumber st, globalId = gid, val = v\<rparr>],
                     currentNumber := currentNumber st + 1\<rparr>
             else st),
            map (\<lambda>l. (l, \<lparr>localId = currentNumber st, globalId = gid, val = v\<rparr>))
              (store_listeners st))"
  using assms
  by (auto simp: EventStore_add_def objectStore_add_def settle_def store_notifyListeners_def)



lemma keysFrom1_initializeDatabase: "keysFrom1 (initializeDatabase ls)"
  by (simp add: keysFrom1_def initializeDatabase_def)

lemma keysFrom1_add:
  "keysFrom1 st \<Longrightarrow> keysFrom1 (fst (snd (EventStore_add st gid v commits)))"
  by (auto simp: keysFrom1_def EventStore_add_def objectStore_add_def Let_def)

lemma keysFrom1_cleanupOldData:
  "keysFrom1 st \<Longrightarrow> cleanupOldData st keepLatest = Inr st' \<Longrightarrow> keysFrom1 st'"
  by (fastforce simp: keysFrom1_def cleanupOldData_def Let_def list_all_iff split: if_splits
        dest: in_set_dropD)

lemma keysFrom1_validStep: "keysFrom1 st \<Longrightarrow> validStep (Tick st outcome)"
  by (simp add: keysFrom1_def)

section \<open>Claims\<close>

text \<open>
  C9. For every well-formed coverage list and every inserted interval with
  \<open>start \<le> end\<close>, the list \<open>updateProcessedRanges\<close> produces is again sorted
  ascending by start, with every two intervals more than one apart (no overlap, no
  adjacency), and it covers exactly the integers covered before together with the
  inserted interval; in particular nothing covered before is lost.
\<close>

theorem updateProcessedRanges_keeps_invariant:
  assumes "wellFormed rs" and "s \<le> e"
  shows "wellFormed (updateProcessedRanges rs s e) \<and>
         sorted_wrt (\<lambda>a b. start a < start b) (updateProcessedRanges rs s e) \<and>
         sorted_wrt (\<lambda>a b. endr a + 1 < start b) (updateProcessedRanges rs s e) \<and>
         covered (updateProcessedRanges rs s e) = covered rs \<union> {s .. e} \<and>
         covered rs \<subseteq> covered (updateProcessedRanges rs s e)"
proof -
  have wf: "wellFormed (updateProcessedRanges rs s e)"
    using assms by (rule updateProcessedRanges_wellFormed)
  have st: "sorted_wrt (\<lambda>a b. start a < start b) (updateProcessedRanges rs s e)"
    using wf by (rule wellFormed_sorted_start)
  have sep: "sorted_wrt (\<lambda>a b. endr a + 1 < start b) (updateProcessedRanges rs s e)"
    using wf by (simp add: wellFormed_def)
  have cov: "covered (updateProcessedRanges rs s e) = covered rs \<union> {s .. e}"
    using assms by (rule updateProcessedRanges_covered)
  have "covered rs \<subseteq> covered (updateProcessedRanges rs s e)"
    unfolding cov by simp
  with wf st sep cov show ?thesis by blast
qed

theorem updateProcessedRanges_keeps_invariant_witness:
  "wellFormed [\<lparr>start = 1, endr = 3\<rparr>, \<lparr>start = 7, endr = 9\<rparr>] \<and> (4::int) \<le> 6 \<and>
   wellFormed (updateProcessedRanges [\<lparr>start = 1, endr = 3\<rparr>, \<lparr>start = 7, endr = 9\<rparr>] 4 6) \<and>
   covered (updateProcessedRanges [\<lparr>start = 1, endr = 3\<rparr>, \<lparr>start = 7, endr = 9\<rparr>] 4 6) =
     covered [\<lparr>start = 1, endr = 3\<rparr>, \<lparr>start = 7, endr = 9\<rparr>] \<union> {4 .. 6}"
proof -
  have h1: "wellFormed [\<lparr>start = 1, endr = 3\<rparr>, \<lparr>start = 7, endr = 9\<rparr>]"
    by (simp add: wellFormed_def)
  have h2: "(4::int) \<le> 6" by simp
  show ?thesis
    using h1 h2 updateProcessedRanges_keeps_invariant [OF h1 h2] by blast
qed

text \<open>
  C8. Insertion is idempotent and commutative, and inserts covering \<open>[0, K]\<close>
  converge: on a well-formed coverage list, inserting an interval \<open>[a, b]\<close> twice
  gives the same list as inserting it once; inserting \<open>[a, b]\<close> and \<open>[c, d]\<close> in
  either order gives the same list (whether or not they overlap or coincide); and any
  sequence of inserts that, together with what was covered, covers exactly
  \<open>[0, K]\<close> ends in the single interval \<open>[0, K]\<close>, whatever the order and the
  overlaps. An interval is a range with \<open>start \<le> end\<close>, as every call of
  \<open>updateProcessedRanges\<close> in the engine passes.
\<close>

theorem updateProcessedRanges_commutative_idempotent:
  assumes "wellFormed rs" and "a \<le> b" and "c \<le> d"
  shows "updateProcessedRanges (updateProcessedRanges rs a b) a b = updateProcessedRanges rs a b \<and>
         updateProcessedRanges (updateProcessedRanges rs a b) c d =
           updateProcessedRanges (updateProcessedRanges rs c d) a b \<and>
         ((\<forall>(s, e) \<in> set ivs. s \<le> e) \<and> 0 \<le> K \<and>
              covered rs \<union> (\<Union>(s, e) \<in> set ivs. {s .. e}) = {0 .. K}
            \<longrightarrow> insertAll rs ivs = [\<lparr>start = 0, endr = K\<rparr>])"
proof (intro conjI impI)
  note wf = updateProcessedRanges_wellFormed and cov = updateProcessedRanges_covered
  have w1: "wellFormed (updateProcessedRanges rs a b)" using assms by (intro wf)
  have w2: "wellFormed (updateProcessedRanges rs c d)" using assms by (intro wf)
  show "updateProcessedRanges (updateProcessedRanges rs a b) a b = updateProcessedRanges rs a b"
    using assms w1 by (intro wellFormed_unique wf) (auto simp: cov)
  show "updateProcessedRanges (updateProcessedRanges rs a b) c d =
        updateProcessedRanges (updateProcessedRanges rs c d) a b"
    using assms w1 w2 by (intro wellFormed_unique wf) (auto simp: cov)
next
  assume h: "(\<forall>(s, e) \<in> set ivs. s \<le> e) \<and> 0 \<le> K \<and>
              covered rs \<union> (\<Union>(s, e) \<in> set ivs. {s .. e}) = {0 .. K}"
  have "wellFormed (insertAll rs ivs)" using assms(1) h by (intro insertAll_wellFormed) auto
  moreover have "wellFormed [\<lparr>start = 0, endr = K\<rparr>]" using h by (simp add: wellFormed_def)
  moreover have "covered (insertAll rs ivs) = covered [\<lparr>start = 0, endr = K\<rparr>]"
  proof -
    have "covered (insertAll rs ivs) = covered rs \<union> (\<Union>(s, e) \<in> set ivs. {s .. e})"
      using assms(1) h by (intro insertAll_covered) auto
    moreover have "covered [\<lparr>start = 0, endr = K\<rparr>] = {0 .. K}" by (simp add: covered_def)
    ultimately show ?thesis using h by simp
  qed
  ultimately show "insertAll rs ivs = [\<lparr>start = 0, endr = K\<rparr>]" by (rule wellFormed_unique)
qed

theorem updateProcessedRanges_commutative_idempotent_witness:
  "wellFormed [\<lparr>start = 1, endr = 3\<rparr>] \<and> (5::int) \<le> 6 \<and> (0::int) \<le> 4 \<and>
   updateProcessedRanges (updateProcessedRanges [\<lparr>start = 1, endr = 3\<rparr>] 5 6) 5 6 =
     updateProcessedRanges [\<lparr>start = 1, endr = 3\<rparr>] 5 6 \<and>
   updateProcessedRanges (updateProcessedRanges [\<lparr>start = 1, endr = 3\<rparr>] 5 6) 0 4 =
     updateProcessedRanges (updateProcessedRanges [\<lparr>start = 1, endr = 3\<rparr>] 0 4) 5 6 \<and>
   insertAll [\<lparr>start = 1, endr = 3\<rparr>] [(5, 6), (0, 4)] = [\<lparr>start = 0, endr = 6\<rparr>]"
proof -
  have h1: "wellFormed [\<lparr>start = 1, endr = 3\<rparr>]" by (simp add: wellFormed_def)
  have h2: "(5::int) \<le> 6" and h3: "(0::int) \<le> 4" by simp_all
  have h4: "(\<forall>(s, e) \<in> set [(5::int, 6::int), (0, 4)]. s \<le> e) \<and> (0::int) \<le> 6 \<and>
      covered [\<lparr>start = 1, endr = 3\<rparr>] \<union> (\<Union>(s, e) \<in> set [(5, 6), (0, 4)]. {s .. e}) = {0 .. 6}"
    by (auto simp: covered_def)
  show ?thesis
    using h1 h2 h3 h4
      updateProcessedRanges_commutative_idempotent [OF h1 h2 h3, of "[(5, 6), (0, 4)]" 6]
    by blast
qed

text \<open>
  C4. Starting from empty coverage, after any sequence of live deliveries of events
  with \<open>localId \<ge> 1\<close>, catch-up ticks over stores whose keys are at least 1 and
  public calls, every interval of the in-memory coverage list and of the persisted one has
  \<open>start \<ge> 1\<close>. Consequently \<open>isFullyCovered\<close> is false in every such state, a tick
  leaves the timer as it is, and \<open>findRangeToProcess\<close> does not throw
  \<open>'Unexpected value'\<close>. The storage outcome and the fold's success are arbitrary at
  every step.
\<close>

theorem reachable_coverage_starts_at_1:
  assumes "processedRanges s0 = []" and "metadata s0 = []" and "list_all validStep steps"
  shows "startsFrom1 (processedRanges (run pe s0 steps)) \<and>
         startsFrom1 (metadata (run pe s0 steps)) \<and>
         \<not> isFullyCovered (processedRanges (run pe s0 steps)) \<and>
         findRangeToProcess (processedRanges (run pe s0 steps)) \<noteq> Inl UnexpectedValue \<and>
         processingIntervalId (snd (processEvents pe' outcome st (run pe s0 steps))) =
           processingIntervalId (run pe s0 steps)"
proof -
  have "engineInv s0" using assms(1,2) by (simp add: engineInv_def startsFrom1_def)
  then have "engineInv (run pe s0 steps)" using assms(3) by (rule run_inv)
  then have a: "startsFrom1 (processedRanges (run pe s0 steps))"
    and b: "startsFrom1 (metadata (run pe s0 steps))"
    by (simp_all add: engineInv_def)
  have c: "\<not> isFullyCovered (processedRanges (run pe s0 steps))"
    using a by (rule startsFrom1_not_fullyCovered)
  have d: "findRangeToProcess (processedRanges (run pe s0 steps)) \<noteq> Inl UnexpectedValue"
    using a by (rule startsFrom1_no_unexpected)
  have e: "processingIntervalId (snd (processEvents pe' outcome st (run pe s0 steps))) =
           processingIntervalId (run pe s0 steps)"
    using c by (rule processEvents_timer)
  from a b c d e show ?thesis by blast
qed

theorem reachable_coverage_starts_at_1_witness:
  "processedRanges (initialState 100 [] :: (int, int list) EventAggregator) = [] \<and>
   metadata (initialState 100 [] :: (int, int list) EventAggregator) = [] \<and>
   list_all validStep [Live (eventWithId 5) Commits, Tick (storeWithIds [1, 2, 3, 4, 5]) Commits] \<and>
   startsFrom1 (processedRanges (run recordingFold (initialState 100 [])
      [Live (eventWithId 5) Commits, Tick (storeWithIds [1, 2, 3, 4, 5]) Commits])) \<and>
   \<not> isFullyCovered (processedRanges (run recordingFold (initialState 100 [])
      [Live (eventWithId 5) Commits, Tick (storeWithIds [1, 2, 3, 4, 5]) Commits])) \<and>
   findRangeToProcess (processedRanges (run recordingFold (initialState 100 [])
      [Live (eventWithId 5) Commits, Tick (storeWithIds [1, 2, 3, 4, 5]) Commits])) \<noteq> Inl UnexpectedValue"
proof -
  have h1: "processedRanges (initialState 100 [] :: (int, int list) EventAggregator) = []"
    and h2: "metadata (initialState 100 [] :: (int, int list) EventAggregator) = []"
    by (simp_all add: initialState_def)
  have h3: "list_all validStep [Live (eventWithId 5) Commits, Tick (storeWithIds [1, 2, 3, 4, 5]) Commits]"
    by (simp add: eventWithId_def storeWithIds_def)
  show ?thesis
    using h1 h2 h3 reachable_coverage_starts_at_1 [OF h1 h2 h3, of recordingFold]
    by blast
qed




text \<open>
  C2, as the code has it. On a well-formed coverage list \<open>findRangeToProcess\<close>
  returns the gap just below the last interval, the one nearest the newest data:
  \<open>{0, MAX_SAFE_INTEGER}\<close> on the empty list; no gap when the last interval starts
  at 1; the error \<open>'Unexpected value'\<close> when it starts at 0; otherwise \<open>{0, start}\<close>
  for a single interval and, for two or more, the end of the second-to-last interval
  and the start of the last. The bounds are exclusive: every id strictly between them
  is uncovered, and every covered id above the gap's start lies in the last interval.
\<close>

theorem findRangeToProcess_gap_below_last:
  assumes "wellFormed rs"
  shows "(rs = [] \<longrightarrow>
            findRangeToProcess rs = Inr (Some \<lparr>start = 0, endr = MAX_SAFE_INTEGER\<rparr>)) \<and>
         (rs \<noteq> [] \<and> start (last rs) = 1 \<longrightarrow> findRangeToProcess rs = Inr None) \<and>
         (rs \<noteq> [] \<and> start (last rs) = 0 \<longrightarrow> findRangeToProcess rs = Inl UnexpectedValue) \<and>
         (length rs = 1 \<and> start (last rs) \<noteq> 1 \<and> start (last rs) \<noteq> 0 \<longrightarrow>
            findRangeToProcess rs = Inr (Some \<lparr>start = 0, endr = start (last rs)\<rparr>)) \<and>
         (2 \<le> length rs \<and> start (last rs) \<noteq> 1 \<and> start (last rs) \<noteq> 0 \<longrightarrow>
            findRangeToProcess rs =
              Inr (Some \<lparr>start = endr (rs ! (length rs - 2)), endr = start (last rs)\<rparr>)) \<and>
         (rs \<noteq> [] \<and> findRangeToProcess rs = Inr (Some g) \<longrightarrow>
            endr g = start (last rs) \<and>
            (start g < i \<and> i < endr g \<longrightarrow> i \<notin> covered rs) \<and>
            (x \<in> covered rs \<and> start g < x \<longrightarrow> start (last rs) \<le> x \<and> x \<le> endr (last rs)))"
proof -
  consider (empty) "rs = []" | (one) b where "rs = [b]" | (more) ys a b where "rs = ys @ [a, b]"
  proof (cases "length rs")
    case 0
    then show ?thesis using empty by simp
  next
    case (Suc n)
    show ?thesis
    proof (cases n)
      case 0
      with Suc have "length rs = 1" by simp
      then obtain b where "rs = [b]" by (cases rs) auto
      then show ?thesis by (rule one)
    next
      case (Suc m)
      with \<open>length rs = Suc n\<close> have "2 \<le> length rs" by simp
      then obtain ys a b where "rs = ys @ [a, b]" using two_or_more by blast
      then show ?thesis by (rule more)
    qed
  qed
  then show ?thesis
  proof cases
    case empty
    then show ?thesis by (simp add: findRangeToProcess_Nil)
  next
    case one
    have w: "wellFormed [b]" using assms one by simp
    show ?thesis
      unfolding one
      using gap_below_last_single [OF w, of g]
      by (simp add: findRangeToProcess_single)
  next
    case more
    have w: "wellFormed (ys @ [a, b])" using assms more by simp
    have n: "(ys @ [a, b]) ! (length (ys @ [a, b]) - 2) = a" by (simp add: nth_append)
    show ?thesis
      unfolding more
      using gap_below_last_two [OF w, of g]
      by (simp add: findRangeToProcess_two n del: append.simps)
  qed
qed


theorem findRangeToProcess_gap_below_last_witness:
  "wellFormed [\<lparr>start = 1, endr = 3\<rparr>, \<lparr>start = 5, endr = 7\<rparr>, \<lparr>start = 10, endr = 12\<rparr>] \<and>
   findRangeToProcess [\<lparr>start = 1, endr = 3\<rparr>, \<lparr>start = 5, endr = 7\<rparr>, \<lparr>start = 10, endr = 12\<rparr>] =
     Inr (Some \<lparr>start = 7, endr = 10\<rparr>) \<and>
   8 \<notin> covered [\<lparr>start = 1, endr = 3\<rparr>, \<lparr>start = 5, endr = 7\<rparr>, \<lparr>start = 10, endr = 12\<rparr>]"
proof -
  have h: "wellFormed [\<lparr>start = 1, endr = 3\<rparr>, \<lparr>start = 5, endr = 7\<rparr>, \<lparr>start = 10, endr = 12\<rparr>]"
    by (simp add: wellFormed_def)
  have f: "findRangeToProcess [\<lparr>start = 1, endr = 3\<rparr>, \<lparr>start = 5, endr = 7\<rparr>, \<lparr>start = 10, endr = 12\<rparr>] =
     Inr (Some \<lparr>start = 7, endr = 10\<rparr>)"
    using findRangeToProcess_gap_below_last [OF h] by simp
  show ?thesis
    using h f findRangeToProcess_gap_below_last [OF h, of "\<lparr>start = 7, endr = 10\<rparr>" 8]
    by simp
qed

text \<open>
  C2 as stated fails twice. A single interval starting at 0 makes
  \<open>findRangeToProcess\<close> throw instead of reporting no gap; and on three intervals the
  gap returned, \<open>{7, 10}\<close>, is not the lowest one: 4 is uncovered and nearer the origin.
\<close>

theorem findRangeToProcess_not_lowest_gap:
  "wellFormed [\<lparr>start = 0, endr = 10\<rparr>] \<and>
   findRangeToProcess [\<lparr>start = 0, endr = 10\<rparr>] = Inl UnexpectedValue \<and>
   findRangeToProcess [\<lparr>start = 0, endr = 10\<rparr>] \<noteq> Inr None \<and>
   wellFormed [\<lparr>start = 1, endr = 3\<rparr>, \<lparr>start = 5, endr = 7\<rparr>, \<lparr>start = 10, endr = 12\<rparr>] \<and>
   findRangeToProcess [\<lparr>start = 1, endr = 3\<rparr>, \<lparr>start = 5, endr = 7\<rparr>, \<lparr>start = 10, endr = 12\<rparr>] =
     Inr (Some \<lparr>start = 7, endr = 10\<rparr>) \<and>
   4 \<notin> covered [\<lparr>start = 1, endr = 3\<rparr>, \<lparr>start = 5, endr = 7\<rparr>, \<lparr>start = 10, endr = 12\<rparr>] \<and>
   (4::int) < 7"
  by (simp add: wellFormed_def findRangeToProcess_def covered_def)

text \<open>
  C1 on a concrete run. Events 3 and 5 were folded on the live path, so coverage is
  \<open>[3,3], [5,5]\<close>; the store holds events 1 to 5 and the batch size is 100. The tick
  asks for \<open>min 100 (5 - 3 - 1) = 1\<close> event below 5 and gets event 4; as \<open>1 < 100\<close> it
  advances coverage to \<open>[1, 4]\<close>, which merges to \<open>[1, 5]\<close>. The fold has seen 3, 5
  and 4 only: events 1 and 2 are covered and were never folded.
\<close>

theorem processEvents_covers_unfolded_events:
  "processedRanges (run recordingFold (initialState 100 [])
      [Live (eventWithId 3) Commits, Live (eventWithId 5) Commits]) =
     [\<lparr>start = 3, endr = 3\<rparr>, \<lparr>start = 5, endr = 5\<rparr>] \<and>
   getEventsBefore (storeWithIds [1, 2, 3, 4, 5]) 5 (Some (min 100 (5 - 3 - 1))) =
     Inr [eventWithId 4] \<and>
   processedRanges (run recordingFold (initialState 100 [])
      [Live (eventWithId 3) Commits, Live (eventWithId 5) Commits,
       Tick (storeWithIds [1, 2, 3, 4, 5]) Commits]) = [\<lparr>start = 1, endr = 5\<rparr>] \<and>
   aggregates (run recordingFold (initialState 100 [])
      [Live (eventWithId 3) Commits, Live (eventWithId 5) Commits,
       Tick (storeWithIds [1, 2, 3, 4, 5]) Commits]) = [3, 5, 4]"
  by code_simp

text \<open>
  C3 on a concrete batch, with one listener subscribed. Both folds succeed with a
  changed item and the transaction commits: aggregates and coverage are persisted and
  no listener is called. When the fold of event 1 fails instead, the batch is aborted
  (no aggregate is kept) and the listener is called for event 2, folded before it.
\<close>

theorem processEvents_success_emits_nothing:
  "fst (processEvents recordingFold Commits (storeWithIds [1, 2])
          (subscribe 7 (initialState 100 []))) = Fulfilled \<and>
   aggregates (snd (processEvents recordingFold Commits (storeWithIds [1, 2])
          (subscribe 7 (initialState 100 [])))) = [2, 1] \<and>
   metadata (snd (processEvents recordingFold Commits (storeWithIds [1, 2])
          (subscribe 7 (initialState 100 [])))) = [\<lparr>start = 1, endr = 2\<rparr>] \<and>
   listeners (snd (processEvents recordingFold Commits (storeWithIds [1, 2])
          (subscribe 7 (initialState 100 [])))) = [7] \<and>
   notifications (snd (processEvents recordingFold Commits (storeWithIds [1, 2])
          (subscribe 7 (initialState 100 [])))) = [] \<and>
   aggregates (snd (processEvents (recordingFoldFailingAt 1) Commits (storeWithIds [1, 2])
          (subscribe 7 (initialState 100 [])))) = [] \<and>
   notifications (snd (processEvents (recordingFoldFailingAt 1) Commits (storeWithIds [1, 2])
          (subscribe 7 (initialState 100 [])))) = [(7, 2)]"
  by code_simp

text \<open>
  C6, as the code has it. On an open store, when the \<open>add\<close> request succeeds (no
  \<open>globalId\<close> collision), \<open>EventStore.add\<close> calls every subscriber once, in
  subscription order, with the stored event \<open>{localId, globalId, value}\<close>, and resolves
  its promise. It does so in \<open>request.onsuccess\<close>, hence before the transaction
  completes and whether or not it completes: the record is stored when the
  transaction commits and is not when it aborts, and the listener calls and the result
  are the same in both cases. Nothing happens on \<open>complete\<close>.
\<close>

theorem EventStore_add_notifies_on_request_success:
  assumes "store_db st" and "\<not> (uniqueGlobalId st \<and> gid \<in> set (map globalId (records st)))"
  shows "fst (EventStore_add st gid v commits) = Fulfilled \<and>
         snd (snd (EventStore_add st gid v commits)) =
           map (\<lambda>l. (l, \<lparr>localId = currentNumber st, globalId = gid, val = v\<rparr>))
             (store_listeners st) \<and>
         records (fst (snd (EventStore_add st gid v True))) =
           records st @ [\<lparr>localId = currentNumber st, globalId = gid, val = v\<rparr>] \<and>
         records (fst (snd (EventStore_add st gid v False))) = records st \<and>
         invoked (add_handler (store_listeners st) gid v \<lparr>promise = Pending, invoked = []\<rparr>
                    (RequestSuccess (currentNumber st))) =
           map (\<lambda>l. (l, \<lparr>localId = currentNumber st, globalId = gid, val = v\<rparr>))
             (store_listeners st) \<and>
         add_handler (store_listeners st) gid v a TransactionCompleteEvent = a"
  using assms
  by (simp add: EventStore_add_request_success settle_def store_notifyListeners_def)

theorem EventStore_add_notifies_on_request_success_witness:
  "store_db (initializeDatabase [OtherListener 0] :: unit EventStore) \<and>
   fst (EventStore_add (initializeDatabase [OtherListener 0]) ''uuid-1'' () True) = Fulfilled \<and>
   snd (snd (EventStore_add (initializeDatabase [OtherListener 0]) ''uuid-1'' () True)) =
     [(OtherListener 0, \<lparr>localId = 1, globalId = ''uuid-1'', val = ()\<rparr>)] \<and>
   records (fst (snd (EventStore_add (initializeDatabase [OtherListener 0]) ''uuid-1'' () True))) =
     [\<lparr>localId = 1, globalId = ''uuid-1'', val = ()\<rparr>]"
proof -
  have h1: "store_db (initializeDatabase [OtherListener 0] :: unit EventStore)"
    by (simp add: initializeDatabase_def)
  have h2: "\<not> (uniqueGlobalId (initializeDatabase [OtherListener 0] :: unit EventStore) \<and>
     ''uuid-1'' \<in> set (map globalId (records (initializeDatabase [OtherListener 0] :: unit EventStore))))"
    by (simp add: initializeDatabase_def)
  show ?thesis
    using h1 EventStore_add_notifies_on_request_success [OF h1 h2, of "()" True]
    by (simp add: initializeDatabase_def)
qed

text \<open>
  C6 as stated fails. With a transaction that commits, the listener has been called
  once the first callback, \<open>success\<close>, is handled, while \<open>complete\<close> is still to
  come. With a transaction that aborts after the request succeeded, \<open>add\<close> resolves
  and the listener is called with event 1 although the store holds no record.
\<close>

theorem EventStore_add_notifies_before_commit:
  "fst (objectStore_add (initializeDatabase [OtherListener 0]) ''uuid-1'' () True) =
     [RequestSuccess 1, TransactionCompleteEvent] \<and>
   invoked (foldl (add_handler [OtherListener 0] ''uuid-1'' ())
              \<lparr>promise = Pending, invoked = []\<rparr> [RequestSuccess 1]) =
     [(OtherListener 0, \<lparr>localId = 1, globalId = ''uuid-1'', val = ()\<rparr>)] \<and>
   fst (objectStore_add (initializeDatabase [OtherListener 0]) ''uuid-1'' () False) =
     [RequestSuccess 1, TransactionAbortEvent] \<and>
   EventStore_add (initializeDatabase [OtherListener 0]) ''uuid-1'' () False =
     (Fulfilled, initializeDatabase [OtherListener 0],
      [(OtherListener 0, \<lparr>localId = 1, globalId = ''uuid-1'', val = ()\<rparr>)]) \<and>
   records (initializeDatabase [OtherListener 0] :: unit EventStore) = []"
  by (simp add: EventStore_add_def objectStore_add_def initializeDatabase_def settle_def
        store_notifyListeners_def)

text \<open>
  C7. On an open store whose \<open>globalId\<close> index is unique, as \<open>initializeDatabase\<close>
  creates it, an \<open>add\<close> whose generated \<open>globalId\<close> is already stored is rejected
  with the add error; the store is left as it was, no subscriber is called, and so the
  engine of the assembled system is left as it was too: no coverage is advanced.
\<close>

theorem EventStore_add_globalId_collision:
  assumes "store_db st" and "uniqueGlobalId st" and "gid \<in> set (map globalId (records st))"
  shows "EventStore_add st gid v commits = (Rejected AddError, st, []) \<and>
         append pe outcome commits gid v (st, agg) = (Rejected AddError, st, agg)"
  using assms
  by (simp add: append_def EventStore_add_def objectStore_add_def settle_def)

theorem EventStore_add_globalId_collision_witness:
  "store_db (fst (snd (EventStore_add (initializeDatabase [AggregatorHandler]) ''uuid-1'' () True))) \<and>
   uniqueGlobalId (fst (snd (EventStore_add (initializeDatabase [AggregatorHandler]) ''uuid-1'' () True))) \<and>
   EventStore_add (fst (snd (EventStore_add (initializeDatabase [AggregatorHandler]) ''uuid-1'' () True)))
     ''uuid-1'' () True =
     (Rejected AddError,
      fst (snd (EventStore_add (initializeDatabase [AggregatorHandler]) ''uuid-1'' () True)), []) \<and>
   records (fst (snd (EventStore_add (initializeDatabase [AggregatorHandler]) ''uuid-1'' () True))) =
     [\<lparr>localId = 1, globalId = ''uuid-1'', val = ()\<rparr>]"
proof -
  let ?st = "fst (snd (EventStore_add (initializeDatabase [AggregatorHandler]) ''uuid-1'' () True))"
  have e: "?st = \<lparr>store_db = True, store_listeners = [AggregatorHandler],
      records = [\<lparr>localId = 1, globalId = ''uuid-1'', val = ()\<rparr>], currentNumber = 2,
      uniqueGlobalId = True\<rparr>"
    by (simp add: EventStore_add_def objectStore_add_def initializeDatabase_def Let_def)
  have h1: "store_db ?st" and h2: "uniqueGlobalId ?st"
    and h3: "''uuid-1'' \<in> set (map globalId (records ?st))"
    unfolding e by simp_all
  have r: "records ?st = [\<lparr>localId = 1, globalId = ''uuid-1'', val = ()\<rparr>]"
    unfolding e by simp
  show ?thesis
    using h1 h2 r EventStore_add_globalId_collision [OF h1 h2 h3, of "()" True]
    by blast
qed



end
